theory Spec2Isabelle
  imports Main "HOL-Library.Word"
begin

unbundle bit_operations_syntax

section \<open>Data model of \<^verbatim>\<open>DynamicBitset.h\<close>\<close>

text \<open>
  \<^verbatim>\<open>byte_index\<close> is \<^verbatim>\<open>size_t\<close>: it only ever indexes a \<^verbatim>\<open>std::vector\<close>, whose size stays far
  below the wrap-around of \<^verbatim>\<open>size_t\<close>, so it is a natural number here. \<^verbatim>\<open>bit_index\<close> and the
  payload of a \<^verbatim>\<open>byte\<close> are \<^verbatim>\<open>unsigned char\<close>: 8-bit words, whose arithmetic wraps.
  The build modelled is the one in which \<^verbatim>\<open>_CONTAINER_DEBUG_LEVEL\<close> and
  \<^verbatim>\<open>_ITERATOR_DEBUG_LEVEL\<close> are not positive, so that the assertions guarded by them are
  compiled out; the unguarded \<^verbatim>\<open>assert\<close> of \<^verbatim>\<open>pop_back\<close> and an out-of-bounds
  \<^verbatim>\<open>operator[]\<close> on the vector are failures (\<open>None\<close>).
\<close>

type_synonym byte_index = nat
type_synonym bit_index = "8 word"
type_synonym byte = "8 word"

definition sNumOfBitsInByte :: bit_index where
  "sNumOfBitsInByte = 8"

subsection \<open>class byte\<close>

text \<open>
  \<^verbatim>\<open>unsigned char shiftAmount = sNumOfBitsInByte - index - 1;\<close> The subtraction is done on
  \<^verbatim>\<open>int\<close> and converted back to \<^verbatim>\<open>unsigned char\<close>, which is subtraction modulo 256.
\<close>

definition shiftAmount :: "bit_index \<Rightarrow> nat" where
  "shiftAmount index = unat (sNumOfBitsInByte - index - 1)"

text \<open>
  \<^verbatim>\<open>mData = (mData & ~(1 << shiftAmount)) + (bit << shiftAmount);\<close> The operands are
  promoted to \<^verbatim>\<open>int\<close> and the sum is converted back to \<^verbatim>\<open>unsigned char\<close>. For
  \<open>index < 8\<close> the shift is at most 7 and nothing overflows; for a larger index the shift
  count exceeds the width of \<^verbatim>\<open>int\<close> and C++ leaves the result undefined, so the equations
  below speak for the code only where \<open>index < 8\<close>.
\<close>

definition byte_set :: "byte \<Rightarrow> bit_index \<Rightarrow> bool \<Rightarrow> byte" where
  "byte_set mData index b =
     word_of_int ((uint mData AND NOT (push_bit (shiftAmount index) 1))
                  + push_bit (shiftAmount index) (of_bool b))"

text \<open>\<^verbatim>\<open>return (mData & (1 << shiftAmount)) >> shiftAmount;\<close> converted to \<^verbatim>\<open>bool\<close>.\<close>

definition byte_get :: "byte \<Rightarrow> bit_index \<Rightarrow> bool" where
  "byte_get mData index =
     (drop_bit (shiftAmount index) (uint mData AND push_bit (shiftAmount index) 1) \<noteq> 0)"

subsection \<open>class dynamic\_bitset\<close>

record IncompleteByte =
  mByte :: byte
  mNumOfBits :: bit_index

definition isFull :: "IncompleteByte \<Rightarrow> bool" where
  "isFull ib = (mNumOfBits ib = sNumOfBitsInByte)"

text \<open>
  The member \<^verbatim>\<open>mBitIndex\<close> of \<^verbatim>\<open>dynamic_bitset\<close> is initialised to 7 and never read or
  written by any function; it is left out.
\<close>

record dynamic_bitset =
  mData :: "byte list"
  mIncompleteByte :: IncompleteByte

text \<open>The default-constructed container.\<close>

definition empty_bitset :: dynamic_bitset where
  "empty_bitset = \<lparr>mData = [], mIncompleteByte = \<lparr>mByte = 0, mNumOfBits = 0\<rparr>\<rparr>"

text \<open>
  A cursor. Its \<^verbatim>\<open>mSource\<close> pointer is the container that the functions below take as
  an argument of their own.
\<close>

record iterator =
  mByteIndex :: byte_index
  mBitIndex :: bit_index

text \<open>\<^verbatim>\<open>IteratorBase::operator++\<close>\<close>

definition iterator_incr :: "iterator \<Rightarrow> iterator" where
  "iterator_incr it =
     (if mBitIndex it + 1 = 8
      then \<lparr>mByteIndex = mByteIndex it + 1, mBitIndex = 0\<rparr>
      else it\<lparr>mBitIndex := mBitIndex it + 1\<rparr>)"

text \<open>\<^verbatim>\<open>operator[]\<close> of \<^verbatim>\<open>std::vector\<close>: reading past the end is undefined, here \<open>None\<close>.\<close>

definition at_vec :: "'a list \<Rightarrow> nat \<Rightarrow> 'a option" where
  "at_vec xs i = (if i < length xs then Some (xs ! i) else None)"

definition isThereAnIncompleteByte :: "dynamic_bitset \<Rightarrow> bool" where
  "isThereAnIncompleteByte s = (mNumOfBits (mIncompleteByte s) > 0)"

text \<open>The condition of the compiled-out assertion of \<^verbatim>\<open>get\<close> and \<^verbatim>\<open>getBitRef\<close>.\<close>

definition position_in_range :: "dynamic_bitset \<Rightarrow> byte_index \<Rightarrow> bit_index \<Rightarrow> bool" where
  "position_in_range s byteIndex bitIndex =
     (byteIndex < length (mData s)
      \<or> (byteIndex = length (mData s) \<and> bitIndex < mNumOfBits (mIncompleteByte s)))"

text \<open>\<^verbatim>\<open>get(byte_index, bit_index)\<close>\<close>

definition get :: "dynamic_bitset \<Rightarrow> byte_index \<Rightarrow> bit_index \<Rightarrow> bool option" where
  "get s byteIndex bitIndex =
     map_option (\<lambda>byte. byte_get byte bitIndex)
       (if byteIndex < length (mData s) then at_vec (mData s) byteIndex
        else Some (mByte (mIncompleteByte s)))"

text \<open>
  A \<^verbatim>\<open>bit_ref\<close> holds a reference to its owning byte: either an element of the vector or
  the byte of the incomplete tail.
\<close>

datatype byte_cell = DataCell byte_index | IncompleteCell

record bit_ref =
  mOwner :: byte_cell
  mIndexAtOwner :: bit_index

text \<open>\<^verbatim>\<open>getBitRef(byte_index, bit_index)\<close>\<close>

definition getBitRef :: "dynamic_bitset \<Rightarrow> byte_index \<Rightarrow> bit_index \<Rightarrow> bit_ref option" where
  "getBitRef s byteIndex bitIndex =
     map_option (\<lambda>returnByte. \<lparr>mOwner = returnByte, mIndexAtOwner = bitIndex\<rparr>)
       (if byteIndex < length (mData s)
        then map_option (\<lambda>_. DataCell byteIndex) (at_vec (mData s) byteIndex)
        else Some IncompleteCell)"

text \<open>Reading the byte a reference aliases; a reference into the vector may dangle.\<close>

definition read_cell :: "dynamic_bitset \<Rightarrow> byte_cell \<Rightarrow> byte option" where
  "read_cell s c =
     (case c of DataCell i \<Rightarrow> at_vec (mData s) i
      | IncompleteCell \<Rightarrow> Some (mByte (mIncompleteByte s)))"

text \<open>\<^verbatim>\<open>bit_ref::operator bit\<close>\<close>

definition bit_ref_read :: "dynamic_bitset \<Rightarrow> bit_ref \<Rightarrow> bool option" where
  "bit_ref_read s r = map_option (\<lambda>byte. byte_get byte (mIndexAtOwner r)) (read_cell s (mOwner r))"

text \<open>\<^verbatim>\<open>push_back(bit)\<close>\<close>

definition push_back_bit :: "dynamic_bitset \<Rightarrow> bool \<Rightarrow> dynamic_bitset" where
  "push_back_bit s b =
     (let ib = mIncompleteByte s;
          ib1 = ib\<lparr>mByte := byte_set (mByte ib) (mNumOfBits ib) b\<rparr>;
          ib2 = ib1\<lparr>mNumOfBits := mNumOfBits ib1 + 1\<rparr>
      in if isFull ib2
         then \<lparr>mData = mData s @ [mByte ib2], mIncompleteByte = ib2\<lparr>mNumOfBits := 0\<rparr>\<rparr>
         else s\<lparr>mIncompleteByte := ib2\<rparr>)"

text \<open>
  \<^verbatim>\<open>push_back(byte)\<close>: \<^verbatim>\<open>for (bit_index i = 0; i < sNumOfBitsInByte; i++) push_back(byte.get(i));\<close>
\<close>

function push_back_byte_loop :: "dynamic_bitset \<Rightarrow> byte \<Rightarrow> bit_index \<Rightarrow> dynamic_bitset" where
  "push_back_byte_loop s byte i =
     (if i < sNumOfBitsInByte
      then push_back_byte_loop (push_back_bit s (byte_get byte i)) byte (i + 1)
      else s)"
  by pat_completeness auto
termination
  by (relation "measure (\<lambda>(s, byte, i). 8 - unat i)")
     (auto simp: sNumOfBitsInByte_def word_less_nat_alt unat_word_ariths)

declare push_back_byte_loop.simps [simp del]

definition push_back_byte :: "dynamic_bitset \<Rightarrow> byte \<Rightarrow> dynamic_bitset" where
  "push_back_byte s byte = push_back_byte_loop s byte 0"

text \<open>
  \<^verbatim>\<open>push_back(const TriviablyCopyableType&)\<close>: the value is given by its object
  representation, the \<^verbatim>\<open>sizeof(value)\<close> bytes \<^verbatim>\<open>data[0]\<close>, \<^verbatim>\<open>data[1]\<close>, ... in memory order.
\<close>

fun push_back_value :: "dynamic_bitset \<Rightarrow> byte list \<Rightarrow> dynamic_bitset" where
  "push_back_value s [] = s"
| "push_back_value s (byte # data) = push_back_value (push_back_byte s byte) data"

text \<open>
  \<^verbatim>\<open>pop_back\<close>: \<^verbatim>\<open>assert(!mData.empty())\<close> is not guarded by a debug level; where it
  fails (and \<^verbatim>\<open>mData.back()\<close> would be undefined) the result is \<open>None\<close>.
\<close>

definition pop_back :: "dynamic_bitset \<Rightarrow> dynamic_bitset option" where
  "pop_back s =
     (if isThereAnIncompleteByte s
      then Some (s\<lparr>mIncompleteByte :=
                    (mIncompleteByte s)\<lparr>mNumOfBits := mNumOfBits (mIncompleteByte s) - 1\<rparr>\<rparr>)
      else if mData s = [] then None
      else Some \<lparr>mData = butlast (mData s),
                 mIncompleteByte = \<lparr>mByte = last (mData s),
                                    mNumOfBits = sNumOfBitsInByte - 1\<rparr>\<rparr>)"

definition clear :: "dynamic_bitset \<Rightarrow> dynamic_bitset" where
  "clear s = \<lparr>mData = [], mIncompleteByte = (mIncompleteByte s)\<lparr>mNumOfBits := 0\<rparr>\<rparr>"

text \<open>\<^verbatim>\<open>begin\<close> and \<^verbatim>\<open>end\<close>\<close>

definition begin_it :: "dynamic_bitset \<Rightarrow> iterator" where
  "begin_it s = \<lparr>mByteIndex = 0, mBitIndex = 0\<rparr>"

definition end_it :: "dynamic_bitset \<Rightarrow> iterator" where
  "end_it s =
     \<lparr>mByteIndex = length (mData s),
      mBitIndex = (if isThereAnIncompleteByte s then mNumOfBits (mIncompleteByte s) else 0)\<rparr>"

text \<open>\<^verbatim>\<open>get(iterator&)\<close>: the bit under the cursor, and the cursor advanced.\<close>

definition get_it :: "dynamic_bitset \<Rightarrow> iterator \<Rightarrow> (bool \<times> iterator) option" where
  "get_it s it =
     map_option (\<lambda>returnBit. (returnBit, iterator_incr it))
       (get s (mByteIndex it) (mBitIndex it))"

subsection \<open>Extraction\<close>

text \<open>
  \<^verbatim>\<open>getByte(iterator&)\<close> is static and reaches the container through the cursor's
  non-const \<^verbatim>\<open>mSource\<close>; it is modelled as passing the container and the cursor through.
  The slow path is the loop
  \<^verbatim>\<open>for (bit_index i = 0; i < sNumOfBitsInByte; i++, ++iterator)\<close>.
\<close>

function getByte_loop ::
  "dynamic_bitset \<Rightarrow> bit_index \<Rightarrow> byte \<Rightarrow> iterator \<Rightarrow> (byte \<times> iterator) option" where
  "getByte_loop s i returnByte it =
     (if i < sNumOfBitsInByte
      then (case get s (mByteIndex it) (mBitIndex it) of
              None \<Rightarrow> None
            | Some b \<Rightarrow> getByte_loop s (i + 1) (byte_set returnByte i b) (iterator_incr it))
      else Some (returnByte, it))"
  by pat_completeness auto
termination
  by (relation "measure (\<lambda>(s, i, returnByte, it). 8 - unat i)")
     (auto simp: sNumOfBitsInByte_def word_less_nat_alt unat_word_ariths)

declare getByte_loop.simps [simp del]

definition getByte ::
  "dynamic_bitset \<Rightarrow> iterator \<Rightarrow> (byte \<times> dynamic_bitset \<times> iterator) option" where
  "getByte s it =
     (if mBitIndex it = 0
      then map_option (\<lambda>byte. (byte, s, it)) (at_vec (mData s) (mByteIndex it))
      else map_option (\<lambda>(returnByte, it'). (returnByte, s, it')) (getByte_loop s 0 0 it))"

text \<open>
  \<^verbatim>\<open>extract(char* destination, size_t amountOfBytesToExtract, iterator& it)\<close>: the
  destination buffer is the list of the bytes written, \<^verbatim>\<open>destination[0]\<close> first.
\<close>

fun extract_bytes ::
  "nat \<Rightarrow> dynamic_bitset \<Rightarrow> iterator \<Rightarrow> (byte list \<times> dynamic_bitset \<times> iterator) option" where
  "extract_bytes 0 s it = Some ([], s, it)"
| "extract_bytes (Suc n) s it =
     (case getByte s it of
        None \<Rightarrow> None
      | Some (byte, s', it') \<Rightarrow>
          (case extract_bytes n s' it' of
             None \<Rightarrow> None
           | Some (destination, s'', it'') \<Rightarrow> Some (byte # destination, s'', it'')))"

text \<open>
  \<^verbatim>\<open>extract<TriviablyCopyableType>(iterator&)\<close>: the type is given by its size, the value
  returned by its object representation.
\<close>

definition extract_value ::
  "nat \<Rightarrow> dynamic_bitset \<Rightarrow> iterator \<Rightarrow> (byte list \<times> dynamic_bitset \<times> iterator) option" where
  "extract_value numOfBytes s it = extract_bytes numOfBytes s it"

text \<open>
  \<^verbatim>\<open>extract<TriviablyCopyableType>(byte_index, bit_index)\<close>, a non-const member: it
  returns the value and leaves the container as the call on its own cursor left it.
\<close>

definition extract_value_at ::
  "nat \<Rightarrow> dynamic_bitset \<Rightarrow> byte_index \<Rightarrow> bit_index \<Rightarrow> (byte list \<times> dynamic_bitset) option" where
  "extract_value_at numOfBytes s byteIndex bitIndex =
     map_option (\<lambda>(returnValue, s', it'). (returnValue, s'))
       (extract_value numOfBytes s \<lparr>mByteIndex = byteIndex, mBitIndex = bitIndex\<rparr>)"

text \<open>
  The object representation of a \<^verbatim>\<open>uint32_t\<close>: its four bytes in memory order. The header
  does not fix the byte order of the host, so it is a parameter.
\<close>

definition uint32_bytes :: "bool \<Rightarrow> 32 word \<Rightarrow> byte list" where
  "uint32_bytes big_endian w =
     (let lsb_first = map (\<lambda>k. ucast (drop_bit (8 * k) w)) [0..<4]
      in if big_endian then rev lsb_first else lsb_first)"

subsection \<open>Reading the container through its cursors\<close>

text \<open>\<^verbatim>\<open>operator!=\<close> of two cursors.\<close>

definition iterator_neq :: "iterator \<Rightarrow> iterator \<Rightarrow> bool" where
  "iterator_neq a b = (mByteIndex a \<noteq> mByteIndex b \<or> mBitIndex a \<noteq> mBitIndex b)"

text \<open>
  The loop a caller writes to read the container,
  \<^verbatim>\<open>for (auto it = begin(); it != end(); ++it) out.push_back(*it);\<close>
  Nothing in the loop itself bounds it, so not returning is the value \<open>None\<close>, as is
  a failed read.
\<close>

partial_function (option) read_from :: "dynamic_bitset \<Rightarrow> iterator \<Rightarrow> bool list option" where
  "read_from s it =
     (if iterator_neq it (end_it s)
      then (case get_it s it of
              None \<Rightarrow> None
            | Some (b, it') \<Rightarrow> Option.bind (read_from s it') (\<lambda>bs. Some (b # bs)))
      else Some [])"

declare read_from.simps [code]

definition read_all :: "dynamic_bitset \<Rightarrow> bool list option" where
  "read_all s = read_from s (begin_it s)"

text \<open>
  The header has no \<^verbatim>\<open>size()\<close>; the logical bit length is the one the data model gives,
  eight bits for each full byte and the meaningful bits of the tail.
\<close>

definition logical_length :: "dynamic_bitset \<Rightarrow> nat" where
  "logical_length s = 8 * length (mData s) + unat (mNumOfBits (mIncompleteByte s))"

subsection \<open>Sequences of calls\<close>

datatype call = PushBack bool | PopBack | Clear

fun apply_call :: "dynamic_bitset \<Rightarrow> call \<Rightarrow> dynamic_bitset option" where
  "apply_call s (PushBack b) = Some (push_back_bit s b)"
| "apply_call s PopBack = pop_back s"
| "apply_call s Clear = Some (clear s)"

fun run_calls :: "dynamic_bitset \<Rightarrow> call list \<Rightarrow> dynamic_bitset option" where
  "run_calls s [] = Some s"
| "run_calls s (c # cs) =
     (case apply_call s c of None \<Rightarrow> None | Some s' \<Rightarrow> run_calls s' cs)"

text \<open>
  What the specification says the same calls do to a sequence of booleans: append one,
  remove the last (a contract violation on the empty sequence), or drop them all.
\<close>

fun spec_apply_call :: "bool list \<Rightarrow> call \<Rightarrow> bool list option" where
  "spec_apply_call bs (PushBack b) = Some (bs @ [b])"
| "spec_apply_call bs PopBack = (if bs = [] then None else Some (butlast bs))"
| "spec_apply_call bs Clear = Some []"

fun spec_run_calls :: "bool list \<Rightarrow> call list \<Rightarrow> bool list option" where
  "spec_run_calls bs [] = Some bs"
| "spec_run_calls bs (c # cs) =
     (case spec_apply_call bs c of None \<Rightarrow> None | Some bs' \<Rightarrow> spec_run_calls bs' cs)"

subsection \<open>The logical bit sequence of a state\<close>

text \<open>
  The eight bits of a byte in position order, and the sequence a state stands for: the
  bits of the full bytes followed by the meaningful bits of the tail. The counter of the
  tail stays below 8 between calls.
\<close>

definition bits_of_byte :: "byte \<Rightarrow> bool list" where
  "bits_of_byte d = map (\<lambda>k. byte_get d (of_nat k)) [0..<8]"

definition bits :: "dynamic_bitset \<Rightarrow> bool list" where
  "bits s = concat (map bits_of_byte (mData s))
            @ take (unat (mNumOfBits (mIncompleteByte s)))
                   (bits_of_byte (mByte (mIncompleteByte s)))"

definition invar :: "dynamic_bitset \<Rightarrow> bool" where
  "invar s = (mNumOfBits (mIncompleteByte s) < 8)"

definition position :: "iterator \<Rightarrow> nat" where
  "position it = 8 * mByteIndex it + unat (mBitIndex it)"

section \<open>The byte cell\<close>

lemma shiftAmount_eq: "index < 8 \<Longrightarrow> shiftAmount index = 7 - unat index"
  unfolding shiftAmount_def sNumOfBitsInByte_def
  by (simp add: unat_sub word_le_nat_alt word_less_nat_alt)

lemma int_test_bit_aux: "drop_bit n ((x::int) AND push_bit n 1) = of_bool (bit x n)"
  by (rule bit_eqI) (auto simp: bit_simps)

lemma byte_get_bit: "byte_get d i = bit d (shiftAmount i)"
  unfolding byte_get_def int_test_bit_aux by (simp add: bit_simps)

lemma byte_set_word:
  "byte_set d i b =
     (d AND NOT (push_bit (shiftAmount i) 1)) OR push_bit (shiftAmount i) (of_bool b)"
  unfolding byte_set_def
  apply (subst disjunctive_add_eq_or)
   apply (simp add: and.assoc)
  apply (simp_all add: of_int_and_eq of_int_or_eq of_int_not_eq of_int_push_bit)
  done

lemma bit_byte_set:
  "bit (byte_set d i b) n = (n < 8 \<and> (if n = shiftAmount i then b else bit d n))"
  unfolding byte_set_word
  by (auto simp: bit_simps dest: bit_imp_le_length)

lemma byte_get_eq: "index < 8 \<Longrightarrow> byte_get d index = bit d (7 - unat index)"
  by (simp add: byte_get_bit shiftAmount_eq)

lemma shiftAmount_less: "i < 8 \<Longrightarrow> shiftAmount i < 8"
  by (simp add: shiftAmount_eq)

lemma shiftAmount_inj:
  assumes "i < 8" "j < 8" "shiftAmount i = shiftAmount j"
  shows "i = j"
proof -
  have "unat i < 8" "unat j < 8"
    using assms by (simp_all add: word_less_nat_alt)
  moreover have "7 - unat i = 7 - unat j"
    using assms by (simp add: shiftAmount_eq)
  ultimately have "unat i = unat j"
    by arith
  then show ?thesis
    by (simp add: word_unat_eq_iff)
qed

lemma byte_get_set_same: "i < 8 \<Longrightarrow> byte_get (byte_set d i v) i = v"
  by (simp add: byte_get_bit bit_byte_set shiftAmount_less)

lemma byte_get_set_other:
  "i < 8 \<Longrightarrow> j < 8 \<Longrightarrow> j \<noteq> i \<Longrightarrow> byte_get (byte_set d i v) j = byte_get d j"
  using shiftAmount_inj [of j i]
  by (auto simp add: byte_get_bit bit_byte_set shiftAmount_less)

lemma bit_byte_set_other: "n \<noteq> shiftAmount i \<Longrightarrow> bit (byte_set d i v) n = bit d n"
  by (auto simp add: bit_byte_set dest: bit_imp_le_length)

text \<open>
  C8. For a byte cell \<open>d\<close>, a position \<open>index\<close> in [0,8) and a value \<open>v\<close>: the shift
  amount is \<open>8 - index - 1\<close>, so position 0 is the most significant bit; \<open>get\<close> returns
  the bit stored at that position; after \<open>set\<close> the position holds \<open>v\<close>, every other
  position reads as before, and every other bit of the underlying 8-bit value is
  unchanged.
\<close>

theorem byte_set_get_msb_first:
  "index < 8 \<Longrightarrow>
     shiftAmount index = 8 - unat index - 1 \<and>
     byte_get d index = bit d (7 - unat index) \<and>
     byte_get (byte_set d index v) index = v \<and>
     (\<forall>j. j < 8 \<and> j \<noteq> index \<longrightarrow> byte_get (byte_set d index v) j = byte_get d j) \<and>
     (\<forall>n. n \<noteq> 7 - unat index \<longrightarrow> bit (byte_set d index v) n = bit d n)"
proof (intro conjI allI impI)
  assume i: "index < 8"
  show "shiftAmount index = 8 - unat index - 1"
    using i by (simp add: shiftAmount_eq)
  show "byte_get d index = bit d (7 - unat index)"
    using i by (rule byte_get_eq)
  show "byte_get (byte_set d index v) index = v"
    using i by (rule byte_get_set_same)
  show "byte_get (byte_set d index v) j = byte_get d j" if "j < 8 \<and> j \<noteq> index" for j
    using i that by (simp add: byte_get_set_other)
  show "bit (byte_set d index v) n = bit d n" if "n \<noteq> 7 - unat index" for n
    using i that by (simp add: bit_byte_set_other shiftAmount_eq)
qed

theorem byte_set_get_msb_first_witness:
  "(3::bit_index) < 8 \<and> shiftAmount 3 = 4 \<and> byte_get 0xA5 3 = bit (0xA5::byte) 4
   \<and> byte_get (byte_set 0xA5 3 True) 3
   \<and> byte_get (byte_set 0xA5 3 True) 0 = byte_get 0xA5 0
   \<and> bit (byte_set 0xA5 3 True) 2 = bit (0xA5::byte) 2"
  using byte_set_get_msb_first [of 3 "0xA5" True]
  by simp

section \<open>The logical bit sequence under the calls\<close>

lemma length_bits_of_byte [simp]: "length (bits_of_byte d) = 8"
  by (simp add: bits_of_byte_def)

lemma of_nat_less_8: "k < 8 \<Longrightarrow> (of_nat k :: 8 word) < 8"
  by (simp add: word_less_nat_alt unat_of_nat)

lemma unat_of_nat_8: "k < 8 \<Longrightarrow> unat (of_nat k :: 8 word) = k"
  by (simp add: unat_of_nat)

lemma nth_bits_of_byte: "k < 8 \<Longrightarrow> bits_of_byte d ! k = byte_get d (of_nat k)"
  by (simp add: bits_of_byte_def)

lemma nth_bits_of_byte_word: "j < 8 \<Longrightarrow> bits_of_byte d ! unat j = byte_get d j"
  by (simp add: nth_bits_of_byte word_less_nat_alt)

lemma bits_of_byte_set:
  assumes "i < 8"
  shows "bits_of_byte (byte_set d i v) = (bits_of_byte d)[unat i := v]"
proof (rule nth_equalityI)
  show "length (bits_of_byte (byte_set d i v)) = length ((bits_of_byte d)[unat i := v])"
    by simp
next
  fix k assume "k < length (bits_of_byte (byte_set d i v))"
  then have k: "k < 8" by simp
  show "bits_of_byte (byte_set d i v) ! k = (bits_of_byte d)[unat i := v] ! k"
  proof (cases "k = unat i")
    case True
    then have "of_nat k = i" by simp
    with True k assms show ?thesis
      by (simp add: nth_bits_of_byte byte_get_set_same)
  next
    case False
    then have "of_nat k \<noteq> i" using k by (auto simp: unat_of_nat_8)
    with False k assms show ?thesis
      by (simp add: nth_bits_of_byte byte_get_set_other of_nat_less_8)
  qed
qed

lemma take_Suc_update: "k < length xs \<Longrightarrow> take (Suc k) (xs[k := v]) = take k xs @ [v]"
  by (simp add: take_Suc_conv_app_nth)

lemma unat_less_8: "(n::8 word) < 8 \<Longrightarrow> unat n < 8"
  by (simp add: word_less_nat_alt)

lemma succ_eq_8_iff: "(n::8 word) < 8 \<Longrightarrow> (n + 1 = 8) = (unat n = 7)"
  by (auto simp: word_less_nat_alt word_unat_eq_iff unat_word_ariths)

lemma unat_succ_8: "(n::8 word) < 8 \<Longrightarrow> unat (n + 1) = Suc (unat n)"
  by (auto simp: word_less_nat_alt  unat_word_ariths)

lemma succ_less_8: "(n::8 word) < 8 \<Longrightarrow> n + 1 \<noteq> 8 \<Longrightarrow> n + 1 < 8"
  by (auto simp: word_less_nat_alt word_unat_eq_iff unat_word_ariths)

lemma bits_push_back_bit:
  assumes "invar s"
  shows "bits (push_back_bit s b) = bits s @ [b]"
proof -
  let ?ib = "mIncompleteByte s"
  let ?n = "mNumOfBits ?ib"
  have n: "?n < 8" using assms by (simp add: invar_def)
  have un: "unat ?n < 8" using n by (rule unat_less_8)
  show ?thesis
  proof (cases "?n + 1 = 8")
    case True
    then have u7: "unat ?n = 7" using n by (simp add: succ_eq_8_iff)
    have "take (Suc 7) ((bits_of_byte (mByte ?ib))[7 := b]) = take 7 (bits_of_byte (mByte ?ib)) @ [b]"
      by (rule take_Suc_update) simp
    then have "(bits_of_byte (mByte ?ib))[7 := b] = take 7 (bits_of_byte (mByte ?ib)) @ [b]"
      by simp
    with True u7 n show ?thesis
      by (simp add: bits_def push_back_bit_def Let_def isFull_def sNumOfBitsInByte_def bits_of_byte_set)
  next
    case False
    have "take (Suc (unat ?n)) ((bits_of_byte (mByte ?ib))[unat ?n := b]) = take (unat ?n) (bits_of_byte (mByte ?ib)) @ [b]"
      using un by (intro take_Suc_update) simp
    with False n show ?thesis
      by (simp add: bits_def push_back_bit_def Let_def isFull_def sNumOfBitsInByte_def bits_of_byte_set unat_succ_8)
  qed
qed

lemma invar_push_back_bit: "invar s \<Longrightarrow> invar (push_back_bit s b)"
  by (auto simp: invar_def push_back_bit_def Let_def isFull_def sNumOfBitsInByte_def succ_less_8)

lemma invar_empty: "invar empty_bitset"
  by (simp add: invar_def empty_bitset_def)

lemma bits_empty: "bits empty_bitset = []"
  by (simp add: bits_def empty_bitset_def)

lemma invar_clear: "invar (clear s)"
  by (simp add: invar_def clear_def)

lemma bits_clear: "bits (clear s) = []"
  by (simp add: bits_def clear_def)

lemma length_concat_bytes: "length (concat (map bits_of_byte xs)) = 8 * length xs"
  by (induction xs) simp_all

lemma length_bits: "invar s \<Longrightarrow> length (bits s) = logical_length s"
  by (simp add: bits_def logical_length_def invar_def length_concat_bytes unat_less_8 min_def word_less_nat_alt)

lemma bits_Nil_iff: "invar s \<Longrightarrow> bits s = [] \<longleftrightarrow> mData s = [] \<and> mNumOfBits (mIncompleteByte s) = 0"
  using length_bits[of s] 
  by (auto simp: logical_length_def unat_eq_0 simp flip: length_0_conv)

lemma bits_of_byte_neq_Nil [simp]: "bits_of_byte d \<noteq> []"
  by (simp add: bits_of_byte_def)

lemma unat_pred_8: "(0::8 word) < n \<Longrightarrow> unat (n - 1) = unat n - 1"
  by (simp add: unat_minus_one word_neq_0_conv)

lemma pop_back_tail:
  assumes "invar s" "isThereAnIncompleteByte s"
  shows "\<exists>s'. pop_back s = Some s' \<and> invar s' \<and> bits s' = butlast (bits s)"
proof -
  let ?ib = "mIncompleteByte s"
  let ?n = "mNumOfBits ?ib"
  have n: "?n < 8" "0 < ?n" using assms by (simp_all add: invar_def isThereAnIncompleteByte_def)
  have un: "unat ?n < 8" "0 < unat ?n" using n by (simp_all add: word_less_nat_alt)
  have less: "?n - 1 < 8" using un n by (simp add: word_less_nat_alt unat_pred_8)
  have "take (unat ?n) (bits_of_byte (mByte ?ib)) \<noteq> []" using un by simp
  moreover have "butlast (take (unat ?n) (bits_of_byte (mByte ?ib))) = take (unat ?n - 1) (bits_of_byte (mByte ?ib))"
    using un by (simp add: butlast_take)
  ultimately have "bits (s\<lparr>mIncompleteByte := ?ib\<lparr>mNumOfBits := ?n - 1\<rparr>\<rparr>) = butlast (bits s)"
    using n by (simp add: bits_def butlast_append unat_pred_8)
  with assms less show ?thesis
    by (simp add: pop_back_def invar_def)
qed

lemma concat_butlast_last:
  "xs \<noteq> [] \<Longrightarrow> concat (map f xs) = concat (map f (butlast xs)) @ f (last xs)"
  by (induction xs) auto

lemma butlast_eq_take_7: "length xs = 8 \<Longrightarrow> butlast xs = take 7 xs"
  by (simp add: butlast_conv_take)

lemma pop_back_full:
  assumes "invar s" "\<not> isThereAnIncompleteByte s" "mData s \<noteq> []"
  shows "\<exists>s'. pop_back s = Some s' \<and> invar s' \<and> bits s' = butlast (bits s)"
proof -
  have n0: "mNumOfBits (mIncompleteByte s) = 0"
    using assms(2) by (simp add: isThereAnIncompleteByte_def word_gt_0)
  have "bits s = concat (map bits_of_byte (butlast (mData s))) @ bits_of_byte (last (mData s))"
    using n0 assms(3) by (simp add: bits_def concat_butlast_last [symmetric])
  then have "butlast (bits s) = concat (map bits_of_byte (butlast (mData s))) @ take 7 (bits_of_byte (last (mData s)))"
    by (simp add: butlast_append butlast_eq_take_7)
  with assms show ?thesis
    by (simp add: pop_back_def invar_def bits_def sNumOfBitsInByte_def)
qed

lemma pop_back_nonempty:
  assumes "invar s" "bits s \<noteq> []"
  shows "\<exists>s'. pop_back s = Some s' \<and> invar s' \<and> bits s' = butlast (bits s)"
proof (cases "isThereAnIncompleteByte s")
  case True
  with assms show ?thesis by (simp add: pop_back_tail)
next
  case False
  then have "mNumOfBits (mIncompleteByte s) = 0"
    by (simp add: isThereAnIncompleteByte_def word_gt_0)
  with assms have "mData s \<noteq> []" by (auto simp: bits_def)
  with assms False show ?thesis by (simp add: pop_back_full)
qed

lemma pop_back_empty:
  assumes "invar s" "bits s = []"
  shows "pop_back s = None"
  using assms by (simp add: bits_Nil_iff pop_back_def isThereAnIncompleteByte_def)

lemma nth_concat_bytes:
  "i < length xs \<Longrightarrow> k < 8 \<Longrightarrow> concat (map bits_of_byte xs) ! (8 * i + k) = bits_of_byte (xs ! i) ! k"
proof (induction xs arbitrary: i)
  case Nil
  then show ?case by simp
next
  case (Cons x xs)
  show ?case
  proof (cases i)
    case 0
    with Cons.prems show ?thesis by (simp add: nth_append)
  next
    case (Suc i')
    with Cons.prems have "i' < length xs" by simp
    from Cons.IH [OF this Cons.prems(2)] Suc show ?thesis
      by (simp add: nth_append)
  qed
qed

lemma get_total: "\<exists>v. get s i j = Some v"
  by (simp add: get_def at_vec_def)

lemma get_in_bits:
  assumes "invar s" "j < 8" "8 * i + unat j < length (bits s)"
  shows "get s i j = Some (bits s ! (8 * i + unat j))"
proof -
  have uj: "unat j < 8" using assms(2) by (rule unat_less_8)
  have len: "length (bits s) = 8 * length (mData s) + unat (mNumOfBits (mIncompleteByte s))"
    using assms(1) by (simp add: length_bits logical_length_def)
  show ?thesis
  proof (cases "i < length (mData s)")
    case True
    then have "8 * i + unat j < 8 * length (mData s)" using uj by arith
    with True uj assms(2) show ?thesis
      by (simp add: get_def at_vec_def bits_def nth_append length_concat_bytes nth_concat_bytes nth_bits_of_byte_word)
  next
    case False
    have "unat (mNumOfBits (mIncompleteByte s)) < 8"
      using assms(1) by (simp add: invar_def unat_less_8)
    with False assms(3) uj len have i: "i = length (mData s)" and lt: "unat j < unat (mNumOfBits (mIncompleteByte s))" 
      by arith+
    with assms(2) show ?thesis
      by (simp add: get_def bits_def nth_append length_concat_bytes nth_bits_of_byte_word)
  qed
qed

lemma foldl_push_back_bit:
  "invar s \<Longrightarrow> invar (foldl push_back_bit s bs) \<and> bits (foldl push_back_bit s bs) = bits s @ bs"
  by (induction bs arbitrary: s) (simp_all add: invar_push_back_bit bits_push_back_bit)


lemma apply_call_refines:
  assumes "invar s"
  shows "case spec_apply_call (bits s) c of
           None \<Rightarrow> apply_call s c = None
         | Some bs \<Rightarrow> (\<exists>s'. apply_call s c = Some s' \<and> invar s' \<and> bits s' = bs)"
proof (cases c)
  case (PushBack b)
  with assms show ?thesis by (simp add: invar_push_back_bit bits_push_back_bit)
next
  case PopBack
  with assms show ?thesis by (simp add: pop_back_empty pop_back_nonempty)
next
  case Clear
  then show ?thesis by (simp add: invar_clear bits_clear)
qed

lemma run_calls_refines:
  "invar s \<Longrightarrow>
     (case spec_run_calls (bits s) cs of
        None \<Rightarrow> run_calls s cs = None
      | Some bs \<Rightarrow> (\<exists>s'. run_calls s cs = Some s' \<and> invar s' \<and> bits s' = bs))"
proof (induction cs arbitrary: s)
  case Nil
  then show ?case by simp
next
  case (Cons c cs)
  show ?case
  proof (cases "spec_apply_call (bits s) c")
    case None
    with apply_call_refines [OF Cons.prems, of c] show ?thesis by simp
  next
    case (Some bs')
    with apply_call_refines [OF Cons.prems, of c]
    obtain s' where s': "apply_call s c = Some s'" "invar s'" "bits s' = bs'" by auto
    from Cons.IH [OF s'(2)] s' Some show ?thesis by (auto split: option.splits)
  qed
qed


section \<open>Reading back through the cursors\<close>

lemma end_it_eq:
  "end_it s = \<lparr>mByteIndex = length (mData s), mBitIndex = mNumOfBits (mIncompleteByte s)\<rparr>"
  by (simp add: end_it_def isThereAnIncompleteByte_def word_gt_0)

lemma position_end_it: "position (end_it s) = logical_length s"
  by (simp add: end_it_eq position_def logical_length_def)

lemma iterator_neq_iff:
  assumes "mBitIndex a < 8" "mBitIndex b < 8"
  shows "iterator_neq a b \<longleftrightarrow> position a \<noteq> position b"
proof -
  have "unat (mBitIndex a) < 8" "unat (mBitIndex b) < 8"
    using assms by (simp_all add: unat_less_8)
  then have "position a = position b \<longleftrightarrow>
      mByteIndex a = mByteIndex b \<and> unat (mBitIndex a) = unat (mBitIndex b)"
    unfolding position_def by arith
  then show ?thesis
    by (auto simp: iterator_neq_def word_unat_eq_iff)
qed

lemma position_incr:
  assumes "mBitIndex it < 8"
  shows "position (iterator_incr it) = Suc (position it)" "mBitIndex (iterator_incr it) < 8"
proof -
  show "position (iterator_incr it) = Suc (position it)"
    using assms by (auto simp: iterator_incr_def position_def succ_eq_8_iff unat_succ_8)
  show "mBitIndex (iterator_incr it) < 8"
    using assms by (auto simp: iterator_incr_def succ_less_8)
qed

lemma get_it_in_bits:
  assumes "invar s" "mBitIndex it < 8" "position it < length (bits s)"
  shows "get_it s it = Some (bits s ! position it, iterator_incr it)"
  using get_in_bits [OF assms(1,2)] assms(3)
  by (simp add: get_it_def position_def)

lemma read_from_drop:
  assumes "invar s"
  shows "mBitIndex it < 8 \<Longrightarrow> position it \<le> length (bits s) \<Longrightarrow>
         read_from s it = Some (drop (position it) (bits s))"
proof (induction "length (bits s) - position it" arbitrary: it)
  case 0
  then have "position it = position (end_it s)"
    using assms by (simp add: position_end_it length_bits)
  moreover have "mBitIndex (end_it s) < 8"
    using assms by (simp add: end_it_eq invar_def)
  ultimately have "\<not> iterator_neq it (end_it s)"
    using "0.prems"(1) by (simp add: iterator_neq_iff)
  with 0 show ?case
    by (subst read_from.simps) simp
next
  case (Suc n)
  then have lt: "position it < length (bits s)" by arith
  then have "position it \<noteq> position (end_it s)"
    using assms by (simp add: position_end_it length_bits)
  moreover have "mBitIndex (end_it s) < 8"
    using assms by (simp add: end_it_eq invar_def)
  ultimately have neq: "iterator_neq it (end_it s)"
    using Suc.prems(1) by (simp add: iterator_neq_iff)
  have step: "get_it s it = Some (bits s ! position it, iterator_incr it)"
    using assms Suc.prems(1) lt by (rule get_it_in_bits)
  have "n = length (bits s) - position (iterator_incr it)"
    using Suc.hyps(2) Suc.prems(1) by (simp add: position_incr)
  moreover have "mBitIndex (iterator_incr it) < 8"
    using Suc.prems(1) by (rule position_incr)
  moreover have "position (iterator_incr it) \<le> length (bits s)"
    using lt Suc.prems(1) by (simp add: position_incr)
  ultimately have "read_from s (iterator_incr it) = Some (drop (position (iterator_incr it)) (bits s))"
    by (rule Suc.hyps(1))
  then have "read_from s (iterator_incr it) = Some (drop (Suc (position it)) (bits s))"
    using Suc.prems(1) by (simp add: position_incr)
  with neq step lt show ?case
    by (subst read_from.simps) (simp add: Cons_nth_drop_Suc)
qed

lemma read_all_bits: "invar s \<Longrightarrow> read_all s = Some (bits s)"
  using read_from_drop [of s "begin_it s"]
  by (simp add: read_all_def begin_it_def position_def)

section \<open>Appending, removing and reading bits\<close>

text \<open>
  C4. For every finite sequence \<open>bs\<close> of booleans: appending them one by one with
  \<open>push_back(bit)\<close> to the empty container and reading from \<open>begin()\<close> to \<open>end()\<close>
  returns, and returns \<open>bs\<close>; and the logical bit length, eight times the number of full
  bytes plus the count of the tail, is the number of bits appended.
\<close>

theorem push_back_bits_roundtrip:
  "read_all (foldl push_back_bit empty_bitset bs) = Some bs \<and>
   logical_length (foldl push_back_bit empty_bitset bs) = length bs"
proof -
  have "invar (foldl push_back_bit empty_bitset bs)"
    and "bits (foldl push_back_bit empty_bitset bs) = bs"
    using foldl_push_back_bit [OF invar_empty, of bs] by (simp_all add: bits_empty)
  then show ?thesis
    using read_all_bits length_bits by fastforce
qed

theorem push_back_bits_roundtrip_witness:
  "read_all (push_back_bit (push_back_bit (push_back_bit empty_bitset True) False) True)
     = Some [True, False, True] \<and>
   logical_length (push_back_bit (push_back_bit (push_back_bit empty_bitset True) False) True) = 3 \<and>
   isThereAnIncompleteByte (push_back_bit (push_back_bit (push_back_bit empty_bitset True) False) True)"
  using push_back_bits_roundtrip [of "[True, False, True]"]
  apply simp
  apply code_simp
  done


text \<open>
  C5. A sequence of \<open>push_back(bit)\<close>, \<open>pop_back\<close> and \<open>clear\<close> calls that, on the
  sequence of booleans the specification describes, never removes from the empty sequence,
  runs on the empty container without failing; in the state it reaches the count of the
  tail is below 8, reading from \<open>begin()\<close> to \<open>end()\<close> gives the specification's
  sequence, and the length of that sequence is eight times the number of full bytes plus
  the count of the tail.
\<close>

theorem tail_accounting_invariant:
  "spec_run_calls [] cs = Some bs \<Longrightarrow>
     \<exists>s. run_calls empty_bitset cs = Some s \<and>
         unat (mNumOfBits (mIncompleteByte s)) < 8 \<and>
         read_all s = Some bs \<and>
         length bs = 8 * length (mData s) + unat (mNumOfBits (mIncompleteByte s))"
proof -
  assume "spec_run_calls [] cs = Some bs"
  with run_calls_refines [OF invar_empty, of cs]
  obtain s where s: "run_calls empty_bitset cs = Some s" "invar s" "bits s = bs"
    by (auto simp: bits_empty)
  from s(2) have "unat (mNumOfBits (mIncompleteByte s)) < 8"
    by (simp add: invar_def unat_less_8)
  moreover from s have "read_all s = Some bs"
    by (simp add: read_all_bits)
  moreover from s have "length bs = 8 * length (mData s) + unat (mNumOfBits (mIncompleteByte s))"
    using length_bits [of s] by (simp add: logical_length_def)
  ultimately show ?thesis using s(1) by blast
qed


theorem tail_accounting_invariant_witness:
  "spec_run_calls []
      ([PushBack False, Clear]
       @ map PushBack [True, True, False, False, True, False, True, False, True]
       @ [PopBack, PopBack])
     = Some [True, True, False, False, True, False, True] \<and>
   (\<exists>s. run_calls empty_bitset
          ([PushBack False, Clear]
           @ map PushBack [True, True, False, False, True, False, True, False, True]
           @ [PopBack, PopBack]) = Some s \<and>
        unat (mNumOfBits (mIncompleteByte s)) < 8 \<and>
        read_all s = Some [True, True, False, False, True, False, True] \<and>
        length [True, True, False, False, True, False, True]
          = 8 * length (mData s) + unat (mNumOfBits (mIncompleteByte s)))"
proof -
  have h: "spec_run_calls []
      ([PushBack False, Clear]
       @ map PushBack [True, True, False, False, True, False, True, False, True]
       @ [PopBack, PopBack])
     = Some [True, True, False, False, True, False, True]"
    by simp
  show ?thesis
    using h tail_accounting_invariant [OF h] by simp
qed

text \<open>
  C6. For a container whose tail count is below 8 (as it is in every state the calls
  reach) and whose bit sequence \<open>bs\<close>, read from \<open>begin()\<close> to \<open>end()\<close>, is not empty:
  \<open>pop_back\<close> succeeds, and \<open>push_back\<close> of the last bit of \<open>bs\<close> afterwards gives a
  container that reads as \<open>bs\<close> again and has the logical bit length it had.
\<close>

theorem pop_back_push_back_restores:
  assumes "invar s" "read_all s = Some bs" "bs \<noteq> []"
  shows "\<exists>s'. pop_back s = Some s' \<and>
              read_all (push_back_bit s' (last bs)) = Some bs \<and>
              logical_length (push_back_bit s' (last bs)) = logical_length s"
proof -
  have bs: "bits s = bs"
    using assms(1,2) by (simp add: read_all_bits)
  with assms obtain s' where s': "pop_back s = Some s'" "invar s'" "bits s' = butlast bs"
    using pop_back_nonempty [of s] by auto
  let ?t = "push_back_bit s' (last bs)"
  have t: "invar ?t" "bits ?t = bs"
    using s' assms(3) by (simp_all add: invar_push_back_bit bits_push_back_bit)
  then have "read_all ?t = Some bs"
    by (simp add: read_all_bits)
  moreover have "logical_length ?t = logical_length s"
    using t bs assms(1) length_bits [of ?t] length_bits [of s] by simp
  ultimately show ?thesis
    using s'(1) by simp
qed


theorem pop_back_push_back_restores_witness:
  "invar \<lparr>mData = [0xB2], mIncompleteByte = \<lparr>mByte = 0xB2, mNumOfBits = 0\<rparr>\<rparr> \<and>
   read_all \<lparr>mData = [0xB2], mIncompleteByte = \<lparr>mByte = 0xB2, mNumOfBits = 0\<rparr>\<rparr>
     = Some [True, False, True, True, False, False, True, False] \<and>
   (\<exists>s'. pop_back \<lparr>mData = [0xB2], mIncompleteByte = \<lparr>mByte = 0xB2, mNumOfBits = 0\<rparr>\<rparr>
            = Some s' \<and>
         read_all (push_back_bit s' False)
            = Some [True, False, True, True, False, False, True, False] \<and>
         logical_length (push_back_bit s' False) = 8)"
proof -
  let ?s = "\<lparr>mData = [0xB2], mIncompleteByte = \<lparr>mByte = 0xB2, mNumOfBits = 0\<rparr>\<rparr>"
  let ?bs = "[True, False, True, True, False, False, True, False]"
  have 1: "invar ?s"
    by (simp add: invar_def)
  have 2: "read_all ?s = Some ?bs"
    by code_simp
  have 3: "?bs \<noteq> []"
    by simp
  show ?thesis
    using 1 2 pop_back_push_back_restores [OF 1 2 3]
    by (simp add: logical_length_def)
qed

lemma pop_back_full_eq:
  "mNumOfBits (mIncompleteByte s) = 0 \<Longrightarrow> mData s \<noteq> [] \<Longrightarrow>
     pop_back s = Some \<lparr>mData = butlast (mData s),
                        mIncompleteByte = \<lparr>mByte = last (mData s), mNumOfBits = 7\<rparr>\<rparr>"
  by (simp add: pop_back_def isThereAnIncompleteByte_def sNumOfBitsInByte_def)

lemma nine_bits_state:
  assumes "length bs = 9"
  shows "length (mData (foldl push_back_bit empty_bitset bs)) = 1"
    and "mNumOfBits (mIncompleteByte (foldl push_back_bit empty_bitset bs)) = 1"
proof -
  let ?s = "foldl push_back_bit empty_bitset bs"
  have inv: "invar ?s" and "bits ?s = bs"
    using foldl_push_back_bit [OF invar_empty, of bs] by (simp_all add: bits_empty)
  then have "8 * length (mData ?s) + unat (mNumOfBits (mIncompleteByte ?s)) = 9"
    using length_bits [of ?s] assms by (simp add: logical_length_def)
  moreover have "unat (mNumOfBits (mIncompleteByte ?s)) < 8"
    using inv by (simp add: invar_def unat_less_8)
  ultimately have "length (mData ?s) = 1 \<and> unat (mNumOfBits (mIncompleteByte ?s)) = 1"
    by arith
  then show "length (mData ?s) = 1" and "mNumOfBits (mIncompleteByte ?s) = 1"
    by (simp_all add: word_unat_eq_iff)
qed


text \<open>
  C7. \<open>pop_back\<close> on a container whose tail holds no bit and which has a full byte moves
  the last full byte into the tail, sets the count of the tail to 7 (the bit of weight 1
  of that byte, its position 7, is no longer counted) and shortens the vector by one.
  After any nine \<open>push_back(bit)\<close> calls on the empty container there is one full byte and
  one bit in the tail, and two \<open>pop_back\<close> calls leave no full byte and a tail count of 7.
\<close>

theorem pop_back_empty_tail_moves_last_byte:
  "(mNumOfBits (mIncompleteByte s) = 0 \<and> mData s \<noteq> [] \<longrightarrow>
      pop_back s = Some \<lparr>mData = butlast (mData s),
                         mIncompleteByte = \<lparr>mByte = last (mData s), mNumOfBits = 7\<rparr>\<rparr>) \<and>
   (length bs = 9 \<longrightarrow>
      length (mData (foldl push_back_bit empty_bitset bs)) = 1 \<and>
      mNumOfBits (mIncompleteByte (foldl push_back_bit empty_bitset bs)) = 1 \<and>
      (\<exists>s1 s2. pop_back (foldl push_back_bit empty_bitset bs) = Some s1 \<and>
               pop_back s1 = Some s2 \<and>
               mData s2 = [] \<and> mNumOfBits (mIncompleteByte s2) = 7))"
proof (intro conjI impI)
  assume "mNumOfBits (mIncompleteByte s) = 0 \<and> mData s \<noteq> []"
  then show "pop_back s = Some \<lparr>mData = butlast (mData s),
                         mIncompleteByte = \<lparr>mByte = last (mData s), mNumOfBits = 7\<rparr>\<rparr>"
    by (simp add: pop_back_full_eq)
next
  assume 9: "length bs = 9"
  let ?s = "foldl push_back_bit empty_bitset bs"
  show "length (mData ?s) = 1" using 9 by (rule nine_bits_state)
  show "mNumOfBits (mIncompleteByte ?s) = 1" using 9 by (rule nine_bits_state)
  let ?s1 = "?s\<lparr>mIncompleteByte := (mIncompleteByte ?s)\<lparr>mNumOfBits := 0\<rparr>\<rparr>"
  have 1: "pop_back ?s = Some ?s1"
    using nine_bits_state(2) [OF 9] by (simp add: pop_back_def isThereAnIncompleteByte_def)
  have "mData ?s1 \<noteq> []" using nine_bits_state(1) [OF 9] by auto
  then have 2: "pop_back ?s1 = Some \<lparr>mData = butlast (mData ?s1),
                        mIncompleteByte = \<lparr>mByte = last (mData ?s1), mNumOfBits = 7\<rparr>\<rparr>"
    by (intro pop_back_full_eq) simp_all
  have "butlast (mData ?s1) = []" using nine_bits_state(1) [OF 9]
    by (cases "mData ?s") simp_all
  with 1 2 show "\<exists>s1 s2. pop_back ?s = Some s1 \<and> pop_back s1 = Some s2 \<and>
               mData s2 = [] \<and> mNumOfBits (mIncompleteByte s2) = 7"
    by simp
qed

theorem pop_back_empty_tail_moves_last_byte_witness:
  "pop_back \<lparr>mData = [0x12, 0xB2], mIncompleteByte = \<lparr>mByte = 0, mNumOfBits = 0\<rparr>\<rparr>
     = Some \<lparr>mData = [0x12], mIncompleteByte = \<lparr>mByte = 0xB2, mNumOfBits = 7\<rparr>\<rparr> \<and>
   length (mData (foldl push_back_bit empty_bitset
             [True, False, True, True, False, False, True, False, True])) = 1 \<and>
   mNumOfBits (mIncompleteByte (foldl push_back_bit empty_bitset
             [True, False, True, True, False, False, True, False, True])) = 1 \<and>
   (\<exists>s1 s2. pop_back (foldl push_back_bit empty_bitset
                [True, False, True, True, False, False, True, False, True]) = Some s1 \<and>
            pop_back s1 = Some s2 \<and> mData s2 = [] \<and> mNumOfBits (mIncompleteByte s2) = 7)"
  using pop_back_empty_tail_moves_last_byte
          [of "\<lparr>mData = [0x12, 0xB2], mIncompleteByte = \<lparr>mByte = 0, mNumOfBits = 0\<rparr>\<rparr>"
              "[True, False, True, True, False, False, True, False, True]"]
  by simp

section \<open>Reading out of range\<close>

text \<open>
  C10. With the assertions compiled out, for every byte index and every bit index in
  [0,8), \<open>get\<close> and \<open>getBitRef\<close> return: no branch fails. A byte index that is not below
  the number of full bytes resolves to the byte of the tail, so the bit returned is the
  (possibly stale) bit of the tail at that bit index, and the reference returned aliases
  the tail.
\<close>

theorem get_out_of_range_reads_tail:
  "j < 8 \<Longrightarrow>
     (\<exists>v. get s i j = Some v) \<and> (\<exists>r. getBitRef s i j = Some r) \<and>
     (length (mData s) \<le> i \<longrightarrow>
        get s i j = Some (byte_get (mByte (mIncompleteByte s)) j) \<and>
        getBitRef s i j = Some \<lparr>mOwner = IncompleteCell, mIndexAtOwner = j\<rparr> \<and>
        bit_ref_read s \<lparr>mOwner = IncompleteCell, mIndexAtOwner = j\<rparr>
          = Some (byte_get (mByte (mIncompleteByte s)) j))"
  by (simp add: get_def getBitRef_def at_vec_def bit_ref_read_def read_cell_def)


theorem get_out_of_range_reads_tail_witness:
  "(0::bit_index) < 8 \<and>
   pop_back (push_back_bit empty_bitset True)
     = Some \<lparr>mData = [], mIncompleteByte = \<lparr>mByte = 0x80, mNumOfBits = 0\<rparr>\<rparr> \<and>
   read_all \<lparr>mData = [], mIncompleteByte = \<lparr>mByte = 0x80, mNumOfBits = 0\<rparr>\<rparr> = Some [] \<and>
   \<not> position_in_range \<lparr>mData = [], mIncompleteByte = \<lparr>mByte = 0x80, mNumOfBits = 0\<rparr>\<rparr> 0 0 \<and>
   get \<lparr>mData = [], mIncompleteByte = \<lparr>mByte = 0x80, mNumOfBits = 0\<rparr>\<rparr> 0 0 = Some True \<and>
   get \<lparr>mData = [], mIncompleteByte = \<lparr>mByte = 0x80, mNumOfBits = 0\<rparr>\<rparr> 5 0 = Some True \<and>
   getBitRef \<lparr>mData = [], mIncompleteByte = \<lparr>mByte = 0x80, mNumOfBits = 0\<rparr>\<rparr> 5 0
     = Some \<lparr>mOwner = IncompleteCell, mIndexAtOwner = 0\<rparr>"
proof -
  let ?s = "\<lparr>mData = [], mIncompleteByte = \<lparr>mByte = 0x80, mNumOfBits = 0\<rparr>\<rparr>"
  have "pop_back (push_back_bit empty_bitset True) = Some ?s"
    by code_simp
  moreover have "read_all ?s = Some []"
    by code_simp
  moreover have "byte_get 0x80 0"
    by code_simp
  moreover have "\<not> position_in_range ?s 0 0"
    by (simp add: position_in_range_def)
  ultimately show ?thesis
    using get_out_of_range_reads_tail [of 0 ?s 0] get_out_of_range_reads_tail [of 0 ?s 5]
    by simp
qed


section \<open>Extraction\<close>

lemma getByte_state: "getByte s it = Some (b, s', it') \<Longrightarrow> s' = s"
  by (auto simp: getByte_def split: if_splits)

lemma extract_bytes_state: "extract_bytes n s it = Some (v, s', it') \<Longrightarrow> s' = s"
proof (induction n arbitrary: s it v)
  case 0
  then show ?case by simp
next
  case (Suc n)
  from Suc.prems obtain b s1 it1 v1
    where 1: "getByte s it = Some (b, s1, it1)"
      and 2: "extract_bytes n s1 it1 = Some (v1, s', it')"
    by (auto split: option.splits)
  from 1 have "s1 = s" by (rule getByte_state)
  moreover from 2 have "s' = s1" by (rule Suc.IH)
  ultimately show ?case by simp
qed

lemma getByte_loop_position:
  "mBitIndex it < 8 \<Longrightarrow> i \<le> 8 \<Longrightarrow>
     \<exists>b it'. getByte_loop s i rb it = Some (b, it') \<and>
             position it' = position it + (8 - unat i) \<and> mBitIndex it' < 8"
proof (induction s i rb it rule: getByte_loop.induct)
  case (1 s i returnByte it)
  show ?case
  proof (cases "i < 8")
    case True
    obtain v where v: "get s (mByteIndex it) (mBitIndex it) = Some v"
      using get_total by blast
    have "mBitIndex (iterator_incr it) < 8" "i + 1 \<le> 8"
      using "1.prems"(1) True by (simp_all add: position_incr inc_le)
    from "1.IH" [OF _ v this] True
    obtain b it' where r: "getByte_loop s (i + 1) (byte_set returnByte i v) (iterator_incr it) = Some (b, it')"
       "position it' = position (iterator_incr it) + (8 - unat (i + 1))" "mBitIndex it' < 8"
      by (auto simp: sNumOfBitsInByte_def)
    have "unat (i + 1) = Suc (unat i)" "unat i < 8"
      using True by (simp_all add: unat_succ_8 unat_less_8)
    with r(2) "1.prems"(1) have "position it' = position it + (8 - unat i)"
      by (simp add: position_incr)
    with r(1,3) True v show ?thesis
      by (subst getByte_loop.simps) (simp add: sNumOfBitsInByte_def)
  next
    case False
    with "1.prems" have "i = 8" by simp
    with "1.prems" show ?thesis
      by (subst getByte_loop.simps) (simp add: sNumOfBitsInByte_def)
  qed
qed

lemma getByte_unaligned:
  assumes "mBitIndex it < 8" "mBitIndex it \<noteq> 0"
  shows "\<exists>b. getByte s it = Some (b, s, \<lparr>mByteIndex = mByteIndex it + 1, mBitIndex = mBitIndex it\<rparr>)"
proof -
  obtain b it' where r: "getByte_loop s 0 0 it = Some (b, it')"
      "position it' = position it + (8 - unat (0::8 word))" "mBitIndex it' < 8"
    using getByte_loop_position [OF assms(1), of 0 s 0] by auto
  have "unat (mBitIndex it) < 8" "unat (mBitIndex it') < 8"
    using assms(1) r(3) by (simp_all add: unat_less_8)
  with r(2) have "mByteIndex it' = mByteIndex it + 1 \<and> unat (mBitIndex it') = unat (mBitIndex it)"
    unfolding position_def by simp arith
  then have "it' = \<lparr>mByteIndex = mByteIndex it + 1, mBitIndex = mBitIndex it\<rparr>"
    by (simp add: word_unat_eq_iff)
  with r(1) assms(2) show ?thesis
    by (simp add: getByte_def)
qed

lemma getByte_aligned:
  "mBitIndex it = 0 \<Longrightarrow> mByteIndex it < length (mData s) \<Longrightarrow>
     getByte s it = Some (mData s ! mByteIndex it, s, it)"
  by (simp add: getByte_def at_vec_def)

lemma extract_bytes_aligned:
  "mBitIndex it = 0 \<Longrightarrow> mByteIndex it < length (mData s) \<Longrightarrow>
     extract_bytes n s it = Some (replicate n (mData s ! mByteIndex it), s, it)"
  by (induction n) (simp_all add: getByte_aligned)

lemma extract_bytes_unaligned:
  "mBitIndex it < 8 \<Longrightarrow> mBitIndex it \<noteq> 0 \<Longrightarrow>
     \<exists>v. extract_bytes n s it = Some (v, s, \<lparr>mByteIndex = mByteIndex it + n, mBitIndex = mBitIndex it\<rparr>)"
proof (induction n arbitrary: it)
  case 0
  then show ?case by simp
next
  case (Suc n)
  let ?it1 = "\<lparr>mByteIndex = mByteIndex it + 1, mBitIndex = mBitIndex it\<rparr>"
  obtain b where b: "getByte s it = Some (b, s, ?it1)"
    using getByte_unaligned [OF Suc.prems] by blast
  have "mBitIndex ?it1 < 8" "mBitIndex ?it1 \<noteq> 0" using Suc.prems by simp_all
  from Suc.IH [OF this] obtain v where
    "extract_bytes n s ?it1 = Some (v, s, \<lparr>mByteIndex = mByteIndex it + 1 + n, mBitIndex = mBitIndex it\<rparr>)"
    by auto
  with b show ?case by simp
qed


text \<open>
  C9. \<open>extract<T>(byteIndex, bitIndex)\<close>: whenever the call returns, the container it
  leaves is the container it was given (full bytes, tail byte and tail count); and it
  returns for every size of \<open>T\<close> from every start whose bit index is in [0,8) and which,
  if byte-aligned, lies in a full byte.
\<close>

theorem extract_value_at_leaves_container:
  "(\<forall>v s'. extract_value_at n s i j = Some (v, s') \<longrightarrow> s' = s) \<and>
   (j < 8 \<and> (j = 0 \<longrightarrow> i < length (mData s)) \<longrightarrow> (\<exists>v. extract_value_at n s i j = Some (v, s)))"
proof (intro conjI allI impI)
  fix v s' assume "extract_value_at n s i j = Some (v, s')"
  then show "s' = s"
    by (auto simp: extract_value_at_def extract_value_def dest: extract_bytes_state)
next
  assume a: "j < 8 \<and> (j = 0 \<longrightarrow> i < length (mData s))"
  let ?it = "\<lparr>mByteIndex = i, mBitIndex = j\<rparr>"
  show "\<exists>v. extract_value_at n s i j = Some (v, s)"
  proof (cases "j = 0")
    case True
    with a extract_bytes_aligned [of ?it s n] show ?thesis
      by (simp add: extract_value_at_def extract_value_def)
  next
    case False
    with a extract_bytes_unaligned [of ?it n s] show ?thesis
      by (auto simp add: extract_value_at_def extract_value_def)
  qed
qed

theorem extract_value_at_leaves_container_witness:
  "extract_value_at 2 \<lparr>mData = [0x12, 0x34], mIncompleteByte = \<lparr>mByte = 0xC0, mNumOfBits = 3\<rparr>\<rparr> 0 3
     = Some ([0x91, 0xA6],
             \<lparr>mData = [0x12, 0x34], mIncompleteByte = \<lparr>mByte = 0xC0, mNumOfBits = 3\<rparr>\<rparr>)"
proof -
  let ?s = "\<lparr>mData = [0x12, 0x34], mIncompleteByte = \<lparr>mByte = 0xC0, mNumOfBits = 3\<rparr>\<rparr>"
  have "map_option fst (extract_value_at 2 ?s 0 3) = Some [0x91, 0xA6]"
    by code_simp
  moreover have "\<exists>v. extract_value_at 2 ?s 0 3 = Some (v, ?s)"
    using extract_value_at_leaves_container [of 2 ?s 0 3] by simp
  ultimately show ?thesis
    by auto
qed

subsection \<open>What the two paths of \<open>getByte\<close> read\<close>

lemma push_back_byte_loop_done: "push_back_byte_loop s byte 8 = s"
  by (subst push_back_byte_loop.simps) (simp add: sNumOfBitsInByte_def)

lemma push_back_byte_loop_step:
  "i < 8 \<Longrightarrow> push_back_byte_loop s byte i = push_back_byte_loop (push_back_bit s (byte_get byte i)) byte (i + 1)"
  by (subst push_back_byte_loop.simps) (simp only: sNumOfBitsInByte_def if_True)

lemma push_back_byte_loop_foldl:
  "i \<le> 8 \<Longrightarrow>
     push_back_byte_loop s b i = foldl push_back_bit s (drop (unat i) (bits_of_byte b))"
proof (induction s b i rule: push_back_byte_loop.induct)
  case (1 s byte i)
  show ?case
  proof (cases "i < 8")
    case True
    then have ui: "unat i < 8" "unat (i + 1) = Suc (unat i)" "i + 1 \<le> 8"
      by (simp_all add: unat_less_8 unat_succ_8 inc_le)
    have c: "i < sNumOfBitsInByte"
      using True by (simp add: sNumOfBitsInByte_def)
    have d: "drop (unat i) (bits_of_byte byte) = byte_get byte i # drop (Suc (unat i)) (bits_of_byte byte)"
      using ui(1) True by (simp add: Cons_nth_drop_Suc [symmetric] nth_bits_of_byte_word)
    have "push_back_byte_loop s byte i = push_back_byte_loop (push_back_bit s (byte_get byte i)) byte (i + 1)"
      using True by (rule push_back_byte_loop_step)
    also have "\<dots> = foldl push_back_bit (push_back_bit s (byte_get byte i)) (drop (unat (i + 1)) (bits_of_byte byte))"
      using c ui(3) by (rule "1.IH")
    also have "\<dots> = foldl push_back_bit s (drop (unat i) (bits_of_byte byte))"
      by (simp only: d ui(2) foldl_Cons)
    finally show ?thesis .
  next
    case False
    with "1.prems" have i: "i = 8" by simp
    have "drop (unat (8::8 word)) (bits_of_byte byte) = []"
      by simp
    then show ?thesis
      unfolding i by (simp only: push_back_byte_loop_done foldl_Nil)
  qed
qed

lemma push_back_byte_foldl: "push_back_byte s b = foldl push_back_bit s (bits_of_byte b)"
  by (simp add: push_back_byte_def push_back_byte_loop_foldl)

lemma push_back_byte_bits:
  "invar s \<Longrightarrow> invar (push_back_byte s b) \<and> bits (push_back_byte s b) = bits s @ bits_of_byte b"
  by (simp add: push_back_byte_foldl foldl_push_back_bit)

lemma push_back_value_bits:
  "invar s \<Longrightarrow>
     invar (push_back_value s data) \<and>
     bits (push_back_value s data) = bits s @ concat (map bits_of_byte data)"
  by (induction data arbitrary: s) (simp_all add: push_back_byte_bits)

lemma mData_push_back_bit: "\<exists>ys. mData (push_back_bit s b) = mData s @ ys"
  by (simp add: push_back_bit_def Let_def)

lemma mData_foldl_push_back_bit: "\<exists>ys. mData (foldl push_back_bit s bs) = mData s @ ys"
proof (induction bs arbitrary: s)
  case Nil
  then show ?case by simp
next
  case (Cons b bs)
  obtain ys where "mData (push_back_bit s b) = mData s @ ys"
    using mData_push_back_bit by blast
  moreover obtain zs where "mData (foldl push_back_bit (push_back_bit s b) bs) = mData (push_back_bit s b) @ zs"
    using Cons.IH by blast
  ultimately show ?case by simp
qed

lemma mData_push_back_value: "\<exists>ys. mData (push_back_value s data) = mData s @ ys"
proof (induction data arbitrary: s)
  case Nil
  then show ?case by simp
next
  case (Cons b data)
  obtain ys where "mData (push_back_byte s b) = mData s @ ys"
    using mData_foldl_push_back_bit by (auto simp: push_back_byte_foldl)
  moreover obtain zs where "mData (push_back_value (push_back_byte s b) data) = mData (push_back_byte s b) @ zs"
    using Cons.IH by blast
  ultimately show ?case by simp
qed

lemma block_split_unique:
  "8 * a + x = 8 * b + y \<Longrightarrow> x < 8 \<Longrightarrow> y < 8 \<Longrightarrow> a = b \<and> x = (y::nat)"
  by arith

lemma push_back_value_counts:
  assumes "invar s"
  shows "length (mData (push_back_value s data)) = length (mData s) + length data"
    and "mNumOfBits (mIncompleteByte (push_back_value s data)) = mNumOfBits (mIncompleteByte s)"
proof -
  let ?t = "push_back_value s data"
  have t: "invar ?t" "bits ?t = bits s @ concat (map bits_of_byte data)"
    using push_back_value_bits [OF assms] by simp_all
  have "length (bits ?t) = length (bits s) + 8 * length data"
    by (simp add: t(2) length_concat_bytes)
  then have "8 * length (mData ?t) + unat (mNumOfBits (mIncompleteByte ?t))
      = 8 * length (mData s) + unat (mNumOfBits (mIncompleteByte s)) + 8 * length data"
    using length_bits [OF t(1)] length_bits [OF assms] by (simp add: logical_length_def)
  moreover have "unat (mNumOfBits (mIncompleteByte ?t)) < 8" "unat (mNumOfBits (mIncompleteByte s)) < 8"
    using t(1) assms by (simp_all add: invar_def unat_less_8)
  ultimately have "length (mData ?t) = length (mData s) + length data
      \<and> unat (mNumOfBits (mIncompleteByte ?t)) = unat (mNumOfBits (mIncompleteByte s))"
    by (intro block_split_unique) simp_all
  then show "length (mData ?t) = length (mData s) + length data"
    and "mNumOfBits (mIncompleteByte ?t) = mNumOfBits (mIncompleteByte s)"
    by (simp_all add: word_unat_eq_iff)
qed

lemma bits_of_byte_inj: "bits_of_byte a = bits_of_byte b \<Longrightarrow> a = b"
proof (rule bit_word_eqI)
  fix n assume eq: "bits_of_byte a = bits_of_byte b" and "n < LENGTH(8)"
  then have n: "n < 8" by simp
  define j :: bit_index where "j = of_nat (7 - n)"
  have j: "j < 8" "unat j = 7 - n"
    using n by (simp_all add: j_def of_nat_less_8 unat_of_nat_8 del: of_nat_diff)
  from eq have "bits_of_byte a ! unat j = bits_of_byte b ! unat j" by simp
  then have "byte_get a j = byte_get b j"
    using j(1) by (simp only: nth_bits_of_byte_word)
  then show "bit a n = bit b n"
    using n j by (simp add: byte_get_eq)
qed

lemma concat_bits_of_byte_inj:
  "length v = length w \<Longrightarrow> concat (map bits_of_byte v) = concat (map bits_of_byte w) \<Longrightarrow> v = w"
proof (induction v w rule: list_induct2)
  case Nil
  then show ?case by simp
next
  case (Cons x xs y ys)
  from Cons.prems have "bits_of_byte x = bits_of_byte y"
    and "concat (map bits_of_byte xs) = concat (map bits_of_byte ys)"
    by (simp_all add: append_eq_append_conv)
  then show ?case
    using Cons.IH by (simp add: bits_of_byte_inj)
qed

lemma getByte_loop_done: "getByte_loop s 8 rb it = Some (rb, it)"
  by (subst getByte_loop.simps) (simp add: sNumOfBitsInByte_def)

lemma getByte_loop_step:
  "i < 8 \<Longrightarrow> get s (mByteIndex it) (mBitIndex it) = Some v \<Longrightarrow>
     getByte_loop s i rb it = getByte_loop s (i + 1) (byte_set rb i v) (iterator_incr it)"
  by (subst getByte_loop.simps) (simp add: sNumOfBitsInByte_def)

lemma take_drop_step:
  "p < length xs \<Longrightarrow> take (Suc m) (drop p xs) = xs ! p # take m (drop (Suc p) xs)"
  by (simp add: Cons_nth_drop_Suc [symmetric])

lemma getByte_loop_reads:
  "invar s \<Longrightarrow> mBitIndex it < 8 \<Longrightarrow> i \<le> 8 \<Longrightarrow>
   position it + (8 - unat i) \<le> length (bits s) \<Longrightarrow>
     \<exists>b it'. getByte_loop s i rb it = Some (b, it') \<and>
             bits_of_byte b = take (unat i) (bits_of_byte rb)
                              @ take (8 - unat i) (drop (position it) (bits s))"
proof (induction s i rb it rule: getByte_loop.induct)
  case (1 s i returnByte it)
  show ?case
  proof (cases "i < 8")
    case True
    then have ui: "unat i < 8" "unat (i + 1) = Suc (unat i)" "i + 1 \<le> 8"
      by (simp_all add: unat_less_8 unat_succ_8 inc_le)
    have lt: "position it < length (bits s)"
      using "1.prems"(4) ui(1) by arith
    define v where "v = bits s ! position it"
    have v: "get s (mByteIndex it) (mBitIndex it) = Some v"
      using get_in_bits [OF "1.prems"(1,2)] lt by (simp add: position_def v_def)
    have c: "i < sNumOfBitsInByte"
      using True by (simp add: sNumOfBitsInByte_def)
    have p: "position (iterator_incr it) = Suc (position it)" "mBitIndex (iterator_incr it) < 8"
      using "1.prems"(2) by (simp_all add: position_incr)
    have "position (iterator_incr it) + (8 - unat (i + 1)) \<le> length (bits s)"
      using "1.prems"(4) ui p by simp
    from "1.IH" [OF c v "1.prems"(1) p(2) ui(3) this]
    obtain b it' where r: "getByte_loop s (i + 1) (byte_set returnByte i v) (iterator_incr it) = Some (b, it')"
      "bits_of_byte b = take (unat (i + 1)) (bits_of_byte (byte_set returnByte i v))
                        @ take (8 - unat (i + 1)) (drop (position (iterator_incr it)) (bits s))"
      by blast
    have "take (Suc (unat i)) (bits_of_byte (byte_set returnByte i v))
          = take (unat i) (bits_of_byte returnByte) @ [v]"
      using True ui(1) by (simp add: bits_of_byte_set take_Suc_update)
    moreover have "take (8 - unat i) (drop (position it) (bits s))
          = v # take (7 - unat i) (drop (Suc (position it)) (bits s))"
    proof -
      have "8 - unat i = Suc (7 - unat i)" using ui(1) by simp
      then show ?thesis using take_drop_step [OF lt, of "7 - unat i"] by (simp add: v_def)
    qed
    ultimately have "bits_of_byte b = take (unat i) (bits_of_byte returnByte)
                              @ take (8 - unat i) (drop (position it) (bits s))"
      using r(2) ui(2) p(1) by simp
    moreover have "getByte_loop s i returnByte it = Some (b, it')"
      using getByte_loop_step [OF True v] r(1) by simp
    ultimately show ?thesis by blast
  next
    case False
    with "1.prems" have i: "i = 8" by simp
    show ?thesis
      unfolding i by (simp add: getByte_loop_done)
  qed
qed

lemma getByte_unaligned_reads:
  assumes "invar s" "mBitIndex it < 8" "mBitIndex it \<noteq> 0" "position it + 8 \<le> length (bits s)"
  shows "\<exists>b. getByte s it = Some (b, s, \<lparr>mByteIndex = mByteIndex it + 1, mBitIndex = mBitIndex it\<rparr>) \<and>
             bits_of_byte b = take 8 (drop (position it) (bits s))"
proof -
  obtain b it' where r: "getByte_loop s 0 0 it = Some (b, it')"
      "bits_of_byte b = take (unat (0::8 word)) (bits_of_byte 0)
                              @ take (8 - unat (0::8 word)) (drop (position it) (bits s))"
    using getByte_loop_reads [OF assms(1,2), of 0 0] assms(4) by auto
  obtain b' where "getByte s it = Some (b', s, \<lparr>mByteIndex = mByteIndex it + 1, mBitIndex = mBitIndex it\<rparr>)"
    using getByte_unaligned [OF assms(2,3)] by blast
  moreover from this r(1) assms(3) have "b' = b"
    by (auto simp: getByte_def)
  ultimately show ?thesis
    using r(2) by simp
qed

lemma extract_bytes_unaligned_reads:
  assumes "invar s"
  shows "mBitIndex it < 8 \<Longrightarrow> mBitIndex it \<noteq> 0 \<Longrightarrow> position it + 8 * n \<le> length (bits s) \<Longrightarrow>
     \<exists>v. extract_bytes n s it = Some (v, s, \<lparr>mByteIndex = mByteIndex it + n, mBitIndex = mBitIndex it\<rparr>) \<and>
         length v = n \<and>
         concat (map bits_of_byte v) = take (8 * n) (drop (position it) (bits s))"
proof (induction n arbitrary: it)
  case 0
  then show ?case by simp
next
  case (Suc n)
  let ?it1 = "\<lparr>mByteIndex = mByteIndex it + 1, mBitIndex = mBitIndex it\<rparr>"
  have "position it + 8 \<le> length (bits s)" using Suc.prems(3) by simp
  from getByte_unaligned_reads [OF assms Suc.prems(1,2) this]
  obtain b where b: "getByte s it = Some (b, s, ?it1)"
      "bits_of_byte b = take 8 (drop (position it) (bits s))"
    by blast
  have p1: "position ?it1 = position it + 8"
    by (simp add: position_def)
  have "mBitIndex ?it1 < 8" "mBitIndex ?it1 \<noteq> 0" "position ?it1 + 8 * n \<le> length (bits s)"
    using Suc.prems p1 by simp_all
  from Suc.IH [OF this]
  obtain v where v:
      "extract_bytes n s ?it1 = Some (v, s, \<lparr>mByteIndex = mByteIndex it + 1 + n, mBitIndex = mBitIndex it\<rparr>)"
      "length v = n"
      "concat (map bits_of_byte v) = take (8 * n) (drop (position ?it1) (bits s))"
    by auto
  have "take (8 * Suc n) (drop (position it) (bits s))
      = take 8 (drop (position it) (bits s)) @ take (8 * n) (drop (position it + 8) (bits s))"
    using take_add [of 8 "8 * n" "drop (position it) (bits s)"] by (simp add: add.commute)
  with b v p1 show ?case
    by simp
qed

lemma push_back_value_mData_aligned:
  assumes "invar s" "mNumOfBits (mIncompleteByte s) = 0"
  shows "mData (push_back_value s data) = mData s @ data"
proof -
  let ?t = "push_back_value s data"
  obtain ys where ys: "mData ?t = mData s @ ys"
    using mData_push_back_value by blast
  have n: "mNumOfBits (mIncompleteByte ?t) = 0" and len: "length (mData ?t) = length (mData s) + length data"
    using push_back_value_counts [OF assms(1), of data] assms(2) by simp_all
  have "bits ?t = bits s @ concat (map bits_of_byte data)"
    using push_back_value_bits [OF assms(1)] by simp
  then have "concat (map bits_of_byte ys) = concat (map bits_of_byte data)"
    using ys n assms(2) by (simp add: bits_def)
  moreover have "length ys = length data"
    using ys len by simp
  ultimately have "ys = data"
    by (rule concat_bits_of_byte_inj [rotated])
  with ys show ?thesis by simp
qed

lemma push_back_value_extract:
  assumes "invar s" "data \<noteq> []"
  shows "extract_value_at (length data) (push_back_value s data)
           (mByteIndex (end_it s)) (mBitIndex (end_it s))
         = Some (if mBitIndex (end_it s) = 0 then replicate (length data) (hd data) else data,
                 push_back_value s data)"
proof -
  let ?t = "push_back_value s data"
  let ?k = "mNumOfBits (mIncompleteByte s)"
  let ?it = "\<lparr>mByteIndex = length (mData s), mBitIndex = ?k\<rparr>"
  have e: "end_it s = ?it" by (rule end_it_eq)
  have k: "?k < 8" using assms(1) by (simp add: invar_def)
  have t: "invar ?t" "bits ?t = bits s @ concat (map bits_of_byte data)"
    using push_back_value_bits [OF assms(1)] by simp_all
  show ?thesis
  proof (cases "?k = 0")
    case True
    then have "mData ?t = mData s @ data"
      using assms(1) by (simp add: push_back_value_mData_aligned)
    then have "mByteIndex ?it < length (mData ?t)" "mData ?t ! mByteIndex ?it = hd data"
      using assms(2) by (simp_all add: nth_append hd_conv_nth)
    with True extract_bytes_aligned [of ?it ?t "length data"] show ?thesis
      by (simp add: e extract_value_at_def extract_value_def)
  next
    case False
    have p: "position ?it = length (bits s)"
      using length_bits [OF assms(1)] by (simp add: position_def logical_length_def)
    then have "position ?it + 8 * length data \<le> length (bits ?t)"
      by (simp add: t(2) length_concat_bytes)
    from extract_bytes_unaligned_reads [OF t(1) _ _ this] k False
    obtain v where v: "extract_bytes (length data) ?t ?it
          = Some (v, ?t, \<lparr>mByteIndex = mByteIndex ?it + length data, mBitIndex = mBitIndex ?it\<rparr>)"
        "length v = length data"
        "concat (map bits_of_byte v) = take (8 * length data) (drop (position ?it) (bits ?t))"
      by auto
    from v(3) have "concat (map bits_of_byte v) = concat (map bits_of_byte data)"
      by (simp add: p t(2) length_concat_bytes)
    with v(2) have "v = data"
      by (rule concat_bits_of_byte_inj)
    with v(1) False show ?thesis
      by (simp add: e extract_value_at_def extract_value_def)
  qed
qed


lemma end_it_after_padding:
  assumes "length pad < 8"
  shows "end_it (foldl push_back_bit empty_bitset pad)
         = \<lparr>mByteIndex = 0, mBitIndex = of_nat (length pad)\<rparr>"
proof -
  let ?s = "foldl push_back_bit empty_bitset pad"
  have inv: "invar ?s" and "bits ?s = pad"
    using foldl_push_back_bit [OF invar_empty, of pad] by (simp_all add: bits_empty)
  then have "8 * length (mData ?s) + unat (mNumOfBits (mIncompleteByte ?s)) = length pad"
    using length_bits [of ?s] by (simp add: logical_length_def)
  with assms have "length (mData ?s) = 0" "unat (mNumOfBits (mIncompleteByte ?s)) = length pad"
    by arith+
  then have "length (mData ?s) = 0" "mNumOfBits (mIncompleteByte ?s) = of_nat (length pad)"
    by (simp_all add: word_unat_eq_iff unat_of_nat_8 [OF assms])
  then show ?thesis
    by (simp add: end_it_eq)
qed


text \<open>
  C1. In the code, \<open>getByte\<close> on a cursor with bit index 0 that points at a full byte
  returns that byte and leaves the cursor where it was: its position is not advanced by
  8 bits, against the comment on \<open>getByte\<close> and against what the slow path does.
\<close>

theorem getByte_aligned_keeps_cursor:
  "mBitIndex it = 0 \<Longrightarrow> mByteIndex it < length (mData s) \<Longrightarrow>
     \<exists>it'. getByte s it = Some (mData s ! mByteIndex it, s, it') \<and> position it' = position it"
  by (simp add: getByte_aligned)

theorem getByte_aligned_keeps_cursor_witness:
  "getByte \<lparr>mData = [0xA5, 0x3C], mIncompleteByte = \<lparr>mByte = 0x3C, mNumOfBits = 0\<rparr>\<rparr>
           \<lparr>mByteIndex = 0, mBitIndex = 0\<rparr>
     = Some (0xA5, \<lparr>mData = [0xA5, 0x3C], mIncompleteByte = \<lparr>mByte = 0x3C, mNumOfBits = 0\<rparr>\<rparr>,
             \<lparr>mByteIndex = 0, mBitIndex = 0\<rparr>)"
proof -
  let ?s = "\<lparr>mData = [0xA5, 0x3C], mIncompleteByte = \<lparr>mByte = 0x3C, mNumOfBits = 0\<rparr>\<rparr>"
  let ?it = "\<lparr>mByteIndex = 0, mBitIndex = 0\<rparr>"
  obtain it' where r: "getByte ?s ?it = Some (mData ?s ! mByteIndex ?it, ?s, it')" "position it' = position ?it"
    using getByte_aligned_keeps_cursor [of ?it ?s] by auto
  have "it' = ?it"
    using getByte_state r(1) by (auto simp: getByte_def at_vec_def)
  with r(1) show ?thesis by simp
qed


text \<open>
  C2. In the code, \<open>push_back\<close> of a value of one byte or more onto a container with
  an empty tail, followed by \<open>extract<T>\<close> at the position before the push, returns the
  first byte of the value in every byte of the result. For 0x12345678 pushed onto the
  empty container that is 0x78787878 on a little-endian host and 0x12121212 on a
  big-endian one.
\<close>

theorem push_back_value_extract_aligned:
  "invar s \<Longrightarrow> \<not> isThereAnIncompleteByte s \<Longrightarrow> data \<noteq> [] \<Longrightarrow>
     extract_value_at (length data) (push_back_value s data)
        (mByteIndex (end_it s)) (mBitIndex (end_it s))
       = Some (replicate (length data) (hd data), push_back_value s data)"
  using push_back_value_extract [of s data]
  by (simp add: end_it_def)

theorem push_back_value_extract_aligned_witness:
  "extract_value_at 4 (push_back_value empty_bitset (uint32_bytes False 0x12345678)) 0 0
     = Some (uint32_bytes False 0x78787878,
             push_back_value empty_bitset (uint32_bytes False 0x12345678)) \<and>
   extract_value_at 4 (push_back_value empty_bitset (uint32_bytes True 0x12345678)) 0 0
     = Some (uint32_bytes True 0x12121212,
             push_back_value empty_bitset (uint32_bytes True 0x12345678))"
proof -
  have le: "uint32_bytes False 0x12345678 = [0x78, 0x56, 0x34, 0x12]"
           "uint32_bytes False 0x78787878 = [0x78, 0x78, 0x78, 0x78]"
    and be: "uint32_bytes True 0x12345678 = [0x12, 0x34, 0x56, 0x78]"
            "uint32_bytes True 0x12121212 = [0x12, 0x12, 0x12, 0x12]"
    by code_simp+
  have e: "\<not> isThereAnIncompleteByte empty_bitset" "end_it empty_bitset = \<lparr>mByteIndex = 0, mBitIndex = 0\<rparr>"
    by (simp_all add: isThereAnIncompleteByte_def end_it_def empty_bitset_def)
  show ?thesis
    using push_back_value_extract_aligned [OF invar_empty e(1), of "[0x78, 0x56, 0x34, 0x12]"]
          push_back_value_extract_aligned [OF invar_empty e(1), of "[0x12, 0x34, 0x56, 0x78]"]
    by (simp add: le be e(2) numeral_eq_Suc)
qed

text \<open>
  C3. In the code, the bytes extracted for the same content depend on the bit offset at
  which it starts: placed after fewer than 8 padding bits on the empty container,
  content of one byte or more is extracted unchanged when the offset is 1 to 7, and at
  offset 0 every extracted byte is the first byte of the content.
\<close>

theorem extract_depends_on_offset:
  "length pad < 8 \<Longrightarrow> data \<noteq> [] \<Longrightarrow>
     extract_value_at (length data)
        (push_back_value (foldl push_back_bit empty_bitset pad) data) 0 (of_nat (length pad))
       = Some (if pad = [] then replicate (length data) (hd data) else data,
               push_back_value (foldl push_back_bit empty_bitset pad) data)"
proof -
  assume pad: "length pad < 8" and data: "data \<noteq> []"
  let ?s = "foldl push_back_bit empty_bitset pad"
  have inv: "invar ?s"
    using foldl_push_back_bit [OF invar_empty, of pad] by simp
  have "(of_nat (length pad) :: bit_index) = 0 \<longleftrightarrow> pad = []"
    using pad by (auto simp: word_unat_eq_iff unat_of_nat_8)
  with push_back_value_extract [OF inv data] end_it_after_padding [OF pad]
  show ?thesis by simp
qed

theorem extract_depends_on_offset_witness:
  "extract_value_at 2 (push_back_value empty_bitset [0x12, 0x34]) 0 0
     = Some ([0x12, 0x12], push_back_value empty_bitset [0x12, 0x34]) \<and>
   extract_value_at 2
      (push_back_value (push_back_bit (push_back_bit (push_back_bit empty_bitset True) False) True)
         [0x12, 0x34]) 0 3
     = Some ([0x12, 0x34],
             push_back_value (push_back_bit (push_back_bit (push_back_bit empty_bitset True) False) True)
               [0x12, 0x34])"
  using extract_depends_on_offset [of "[]" "[0x12, 0x34]"]
        extract_depends_on_offset [of "[True, False, True]" "[0x12, 0x34]"]
  by (simp add: numeral_eq_Suc)

end
